theory Spec2Isabelle
  imports Complex_Main
begin

section \<open>Arrays, errors and machine integers\<close>

text \<open>
  The simulator works on numpy arrays. An array is modelled by its shape and its elements
  in row-major order; a Python scalar argument is the 0-d array \<open>NdArray [] [x]\<close>.
  Floating-point values are modelled as exact reals; where the code can divide by zero the
  non-finite result is made explicit. Integer arrays hold 64-bit integers (numpy's default
  integer type): elements are \<open>int\<close> and the wrap-around of in-place arithmetic is
  written out with \<open>wrap64\<close>.
\<close>

datatype error = ValueError string | IndexError string

datatype 'a ndarray = NdArray (shape: "nat list") (elems: "'a list")

definition wf_array :: "'a ndarray \<Rightarrow> bool" where
  "wf_array a = (length (elems a) = prod_list (shape a))"

definition wrap64 :: "int \<Rightarrow> int" where
  "wrap64 x = (x + 2 ^ 63) mod 2 ^ 64 - 2 ^ 63"

definition is_int64 :: "int \<Rightarrow> bool" where
  "is_int64 x = (- (2 ^ 63) \<le> x \<and> x < 2 ^ 63)"

text \<open>\<open>x.astype(int)\<close> on a float: truncation towards zero; a value outside the
  64-bit range has no defined cast and yields the minimal integer on x86-64.\<close>

definition astype_int :: "real \<Rightarrow> int" where
  "astype_int x =
     (if - (2 ^ 63) \<le> x \<and> x < 2 ^ 63 then (if 0 \<le> x then \<lfloor>x\<rfloor> else \<lceil>x\<rceil>)
      else - (2 ^ 63))"

text \<open>Sequencing of fallible steps: the first error is the result.\<close>

definition bind :: "error + 'a \<Rightarrow> ('a \<Rightarrow> error + 'b) \<Rightarrow> error + 'b" where
  "bind m f = (case m of Inl e \<Rightarrow> Inl e | Inr x \<Rightarrow> f x)"

subsection \<open>Broadcasting\<close>

text \<open>\<open>chunks n k xs\<close> are the \<open>n\<close> consecutive blocks of \<open>k\<close> elements of \<open>xs\<close>:
  the sub-arrays along the first axis, or the rows of the last axis.\<close>

definition chunks :: "nat \<Rightarrow> nat \<Rightarrow> 'a list \<Rightarrow> 'a list list" where
  "chunks n k xs = map (\<lambda>i. take k (drop (i * k) xs)) [0..<n]"

text \<open>numpy's broadcasting rule on shapes of equal rank: an axis either has the target's
  length, or has length 1 and is repeated.\<close>

fun bcast :: "nat list \<Rightarrow> nat list \<Rightarrow> 'a list \<Rightarrow> 'a list option" where
  "bcast [] [] xs = Some xs"
| "bcast (a # s) (b # t) xs =
     (if a = b then
        map_option concat (those (map (bcast s t) (chunks a (prod_list s) xs)))
      else if a = 1 then map_option (\<lambda>ys. concat (replicate b ys)) (bcast s t xs)
      else None)"
| "bcast _ _ _ = None"

definition broadcast_to :: "'a ndarray \<Rightarrow> nat list \<Rightarrow> error + 'a ndarray" where
  "broadcast_to a t =
     (if length t < length (shape a)
      then Inl (ValueError ''input operand has more dimensions than allowed'')
      else case bcast (replicate (length t - length (shape a)) 1 @ shape a) t (elems a) of
             None \<Rightarrow> Inl (ValueError ''operands could not be broadcast together'')
           | Some ys \<Rightarrow> Inr (NdArray t ys))"

section \<open>Random draws\<close>

text \<open>
  Every random draw comes from a sampler: a function from the position of the draw (and
  the parameters of the distribution) to the value drawn. The code is modelled for an
  arbitrary sampler; what is known of a sampler is the support of its distribution.
\<close>

text \<open>\<open>scipy.stats.truncnorm.rvs(a, b, loc, scale)\<close>: a bound \<open>None\<close> is infinite.\<close>

definition bounds_ok :: "real option \<Rightarrow> real option \<Rightarrow> bool" where
  "bounds_ok a b = (case (a, b) of (Some l, Some u) \<Rightarrow> l < u | _ \<Rightarrow> True)"


definition truncnorm_rvs ::
  "(nat \<Rightarrow> real option \<Rightarrow> real option \<Rightarrow> real \<Rightarrow> real \<Rightarrow> real) \<Rightarrow>
   real option \<Rightarrow> real option \<Rightarrow> real \<Rightarrow> real \<Rightarrow> nat list \<Rightarrow> error + real ndarray" where
  "truncnorm_rvs tn a b loc scale sz =
     (if \<not> bounds_ok a b \<or> scale < 0
      then Inl (ValueError ''Domain error in arguments'')
      else if scale = 0 then Inr (NdArray sz (replicate (prod_list sz) loc))
      else Inr (NdArray sz (map (\<lambda>k. tn k a b loc scale) [0..<prod_list sz])))"

text \<open>\<open>numpy.random.poisson(lam)\<close>: a count; zero when \<open>lam = 0\<close>. numpy rejects
  a \<open>lam\<close> above \<open>poisson_lam_max\<close> (the largest integer less ten standard deviations),
  so that the draws fit the integer type.\<close>

definition poisson_rng :: "(nat \<Rightarrow> real \<Rightarrow> nat) \<Rightarrow> bool" where
  "poisson_rng po = (\<forall>k lam. int (po k lam) < 2 ^ 63 - 1 \<and> (lam = 0 \<longrightarrow> po k lam = 0))"

definition poisson_lam_max :: real where
  "poisson_lam_max = 9223372036854775807 - 10 * sqrt 9223372036854775807"

definition poisson :: "(nat \<Rightarrow> real \<Rightarrow> nat) \<Rightarrow> real \<Rightarrow> nat \<Rightarrow> error + int list" where
  "poisson po lam sz =
     (if lam < 0 then Inl (ValueError ''lam < 0 or lam is NaN'')
      else if poisson_lam_max < lam then Inl (ValueError ''lam value too large'')
      else Inr (map (\<lambda>k. int (po k lam)) [0..<sz]))"

text \<open>\<open>numpy.random.multinomial(n, pvals)\<close>: one count per category, \<open>n\<close> in total
  when there is a category. A probability \<open>None\<close> is a non-finite float.\<close>

definition multinomial_rng :: "(nat \<Rightarrow> int \<Rightarrow> real list \<Rightarrow> int list) \<Rightarrow> bool" where
  "multinomial_rng mn = (\<forall>k n ps. 0 \<le> n \<longrightarrow>
      length (mn k n ps) = length ps \<and> (\<forall>c \<in> set (mn k n ps). 0 \<le> c) \<and>
      (ps \<noteq> [] \<longrightarrow> sum_list (mn k n ps) = n))"

definition multinomial :: "(int \<Rightarrow> real list \<Rightarrow> int list) \<Rightarrow> int \<Rightarrow> real option list \<Rightarrow> error + int list" where
  "multinomial draw n pvals =
     (if \<exists>p \<in> set pvals. (case p of None \<Rightarrow> True | Some x \<Rightarrow> x < 0 \<or> 1 < x)
      then Inl (ValueError ''pvals < 0, pvals > 1 or pvals contains NaNs'')
      else if 1 + 1 / 10 ^ 12 < sum_list (map the (butlast pvals))
      then Inl (ValueError ''sum(pvals[:-1]) > 1.0'')
      else if n < 0 then Inl (ValueError ''n < 0'')
      else Inr (draw n (map the pvals)))"

text \<open>\<open>numpy.random.binomial(n, p, size)\<close> on arrays: at most \<open>n\<close> successes, none
  when \<open>p = 0\<close>, all when \<open>p = 1\<close>.\<close>

definition binomial_rng :: "(nat \<Rightarrow> nat \<Rightarrow> int \<Rightarrow> real \<Rightarrow> int) \<Rightarrow> bool" where
  "binomial_rng bn = (\<forall>i j n p. 0 \<le> n \<longrightarrow> 0 \<le> p \<longrightarrow> p \<le> 1 \<longrightarrow>
      0 \<le> bn i j n p \<and> bn i j n p \<le> n \<and> (p = 0 \<longrightarrow> bn i j n p = 0) \<and>
      (p = 1 \<longrightarrow> bn i j n p = n))"

definition binomial ::
  "(nat \<Rightarrow> int \<Rightarrow> real \<Rightarrow> int) \<Rightarrow> int ndarray \<Rightarrow> real ndarray \<Rightarrow> nat list \<Rightarrow> error + int list" where
  "binomial draw n p sz =
     (if \<exists>q \<in> set (elems p). q < 0 \<or> 1 < q then Inl (ValueError ''p < 0, p > 1 or p is NaN'')
      else if \<exists>k \<in> set (elems n). k < 0 then Inl (ValueError ''n < 0'')
      else case (broadcast_to n sz, broadcast_to p sz) of
             (Inr ns, Inr ps) \<Rightarrow>
               Inr (map (\<lambda>j. draw j (elems ns ! j) (elems ps ! j)) [0..<prod_list sz])
           | _ \<Rightarrow> Inl (ValueError ''shape mismatch: objects cannot be broadcast''))"

section \<open>sequencing.py\<close>

subsection \<open>library_size\<close>

definition library_size ::
  "(nat \<Rightarrow> real option \<Rightarrow> real option \<Rightarrow> real \<Rightarrow> real \<Rightarrow> real) \<Rightarrow>
   nat list \<Rightarrow> real \<Rightarrow> real \<Rightarrow> real option \<Rightarrow> real option \<Rightarrow> error + int ndarray" where
  "library_size tn n_cells loc scale lower_bound upper_bound =
     bind (truncnorm_rvs tn lower_bound upper_bound loc scale n_cells)
       (\<lambda>z. Inr (NdArray (shape z) (map (\<lambda>x. astype_int (exp x)) (elems z))))"

subsection \<open>fragment_genes\<close>

definition fragment_genes :: "(nat \<Rightarrow> real \<Rightarrow> nat) \<Rightarrow> nat \<Rightarrow> real \<Rightarrow> error + int ndarray" where
  "fragment_genes po n_genes lam =
     bind (poisson po lam n_genes)
       (\<lambda>ks. Inr (NdArray [n_genes] (map (\<lambda>k. wrap64 (1 + k)) ks)))"

subsection \<open>umi_counts\<close>

text \<open>The count matrix returned: a dense array, or a compressed-sparse-row matrix
  (shape, row pointers, column indices, stored values).\<close>

datatype matrix = Dense "nat list" "int list"
  | Sparse "nat \<times> nat" "nat list" "nat list" "int list"

text \<open>\<open>numpy.repeat(row, repeats)\<close> along the gene axis.\<close>

definition repeat :: "'a list \<Rightarrow> int list \<Rightarrow> 'a list" where
  "repeat row reps = concat (map (\<lambda>(x, r). replicate (nat r) x) (zip row reps))"

text \<open>A row divided by its sum: dividing by zero gives a non-finite value.\<close>

definition normalize :: "real list \<Rightarrow> real option list" where
  "normalize row = map (\<lambda>x. if sum_list row = 0 then None else Some (x / sum_list row)) row"

text \<open>\<open>scipy.sparse.vstack\<close> of the rows as one-row sparse matrices: only the nonzero
  entries of a row are stored.\<close>

definition csr_indices :: "int list \<Rightarrow> nat list" where
  "csr_indices row = filter (\<lambda>j. row ! j \<noteq> 0) [0..<length row]"

definition csr_vstack :: "int list list \<Rightarrow> matrix" where
  "csr_vstack rows =
     Sparse (length rows, length (hd rows))
       (map (\<lambda>i. length (concat (map csr_indices (take i rows)))) [0..<Suc (length rows)])
       (concat (map csr_indices rows))
       (concat (map (filter (\<lambda>v. v \<noteq> 0)) rows))"

text \<open>The library size of every cell: drawn, or the argument broadcast to the cells.\<close>

definition assigned_lib_size ::
  "(nat \<Rightarrow> real option \<Rightarrow> real option \<Rightarrow> real \<Rightarrow> real \<Rightarrow> real) \<Rightarrow>
   nat list \<Rightarrow> int ndarray option \<Rightarrow> error + int ndarray" where
  "assigned_lib_size tn n_cells lib_size =
     (case lib_size of
        None \<Rightarrow> library_size tn n_cells (75 / 10) (5 / 10) (Some (- 1)) None
      | Some l \<Rightarrow> broadcast_to l n_cells)"

text \<open>One multinomial draw per cell, in the order of \<open>numpy.ndindex\<close>; the first error
  ends the run.\<close>

fun sample_cells ::
  "(nat \<Rightarrow> int \<Rightarrow> real list \<Rightarrow> int list) \<Rightarrow> nat \<Rightarrow> int list \<Rightarrow> real option list list \<Rightarrow>
   error + int list list" where
  "sample_cells mn i lib [] = Inr []"
| "sample_cells mn i lib (p # ps) =
     bind (multinomial (mn i) (lib ! i) p)
       (\<lambda>row. bind (sample_cells mn (Suc i) lib ps) (\<lambda>rows. Inr (row # rows)))"

definition umi_counts ::
  "(nat \<Rightarrow> real option \<Rightarrow> real option \<Rightarrow> real \<Rightarrow> real \<Rightarrow> real) \<Rightarrow>
   (nat \<Rightarrow> int \<Rightarrow> real list \<Rightarrow> int list) \<Rightarrow>
   real ndarray \<Rightarrow> int ndarray option \<Rightarrow> int ndarray \<Rightarrow> bool \<Rightarrow> error + matrix" where
  "umi_counts tn mn raw_expression lib_size fragments_per_gene sparse =
     (if \<exists>x \<in> set (elems raw_expression). x < 0
      then Inl (ValueError ''raw_expression must be non-negative'')
      else if length (shape raw_expression) = 1
      then Inl (ValueError ''raw_expression should be >= 2 dimensions'')
      else if shape raw_expression = [] then Inl (IndexError ''tuple index out of range'')
      else
        let n_cells = butlast (shape raw_expression);
            n_genes = last (shape raw_expression)
        in bind (assigned_lib_size tn n_cells lib_size) (\<lambda>lib.
           bind (broadcast_to fragments_per_gene [n_genes]) (\<lambda>fpg.
           if \<exists>r \<in> set (elems fpg). r < 0
           then Inl (ValueError ''repeats may not contain negative values'')
           else
             let fragment_expression =
                   map (\<lambda>row. repeat row (elems fpg))
                     (chunks (prod_list n_cells) n_genes (elems raw_expression));
                 gene_p = map normalize fragment_expression
             in bind (sample_cells mn 0 (elems lib) gene_p) (\<lambda>rows.
                if rows = [] then Inl (ValueError ''need at least one array to concatenate'')
                else if sparse then Inr (csr_vstack rows)
                else Inr (Dense (n_cells @ [length (concat rows) div prod_list n_cells])
                           (concat rows))))))"

text \<open>The rows of a dense count matrix: one per cell, along the last axis.\<close>

definition dense_rows :: "matrix \<Rightarrow> int list list" where
  "dense_rows m = (case m of
       Dense s xs \<Rightarrow> chunks (prod_list (butlast s)) (last s) xs
     | Sparse s ip ix d \<Rightarrow> [])"

subsection \<open>pcr_noise\<close>

text \<open>
  \<open>pcr_noise\<close> may update its argument in place, so the arrays live in a store: a
  list of objects, an address being an index. A dense array owns its elements; a sparse
  (CSR) matrix has its shape, row pointers and column indices, and refers to the array of
  its stored values by address. A new object is appended to the store.
\<close>

type_synonym addr = nat

datatype obj = NdArr "nat list" "int list" | Csr "nat \<times> nat" "nat list" "nat list" addr

type_synonym heap = "obj list"

definition obj_shape :: "obj \<Rightarrow> nat list" where
  "obj_shape ob = (case ob of NdArr s xs \<Rightarrow> s | Csr s ip ix da \<Rightarrow> [fst s, snd s])"

definition buf :: "heap \<Rightarrow> addr \<Rightarrow> int list" where
  "buf h a = (case h ! a of NdArr s xs \<Rightarrow> xs | Csr s ip ix da \<Rightarrow> [])"

text \<open>A stored object is well formed: an array has as many elements as its shape says,
  each a 64-bit integer; the values of a sparse matrix are a 1-d array of the store with one
  value per column index.\<close>

definition wf_obj :: "heap \<Rightarrow> obj \<Rightarrow> bool" where
  "wf_obj h ob = (case ob of
       NdArr s xs \<Rightarrow> length xs = prod_list s \<and> list_all is_int64 xs
     | Csr s ip ix da \<Rightarrow> da < length h \<and>
         (case h ! da of NdArr s' xs \<Rightarrow> s' = [length ix] | Csr s' ip' ix' da' \<Rightarrow> False))"

definition wf_heap :: "heap \<Rightarrow> bool" where
  "wf_heap h = list_all (wf_obj h) h"

text \<open>The matrix an address stands for, read from the store.\<close>

definition read_matrix :: "heap \<Rightarrow> addr \<Rightarrow> matrix" where
  "read_matrix h a = (case h ! a of
       NdArr s xs \<Rightarrow> Dense s xs
     | Csr s ip ix da \<Rightarrow> Sparse s ip ix (buf h da))"

text \<open>\<open>read_counts.copy()\<close>: a new array; for a sparse matrix a new matrix with a new
  array of values.\<close>

definition copy_obj :: "heap \<Rightarrow> addr \<Rightarrow> addr \<times> heap" where
  "copy_obj h a = (case h ! a of
       NdArr s xs \<Rightarrow> (length h, h @ [NdArr s xs])
     | Csr s ip ix da \<Rightarrow> (Suc (length h), h @ [h ! da, Csr s ip ix (length h)]))"

text \<open>\<open>nonzero()\<close> of a CSR matrix: the row and the column of every stored value that
  is not zero, in storage order.\<close>

definition expandptr :: "nat list \<Rightarrow> nat list" where
  "expandptr indptr =
     concat (map (\<lambda>r. replicate (indptr ! Suc r - indptr ! r) r) [0..<length indptr - 1])"

definition nonzero :: "nat list \<Rightarrow> nat list \<Rightarrow> int list \<Rightarrow> nat list \<times> nat list" where
  "nonzero indptr indices data =
     (map fst (filter (\<lambda>(r, v). v \<noteq> 0) (zip (expandptr indptr) data)),
      map fst (filter (\<lambda>(c, v). v \<noteq> 0) (zip indices data)))"

text \<open>\<open>pcr_betas[:, cols]\<close> on the \<open>(1, m)\<close> array of efficiencies.\<close>

definition take_columns :: "real ndarray \<Rightarrow> nat list \<Rightarrow> error + real ndarray" where
  "take_columns betas cols =
     (if \<exists>c \<in> set cols. shape betas ! 1 \<le> c
      then Inl (IndexError ''index is out of bounds for axis 1'')
      else Inr (NdArray [1, length cols] (map (\<lambda>c. elems betas ! c) cols)))"

text \<open>\<open>d += inc\<close> on the array at an address: in place, in 64-bit arithmetic.\<close>

definition iadd :: "heap \<Rightarrow> addr \<Rightarrow> int list \<Rightarrow> heap" where
  "iadd h a inc = (case h ! a of
       NdArr s xs \<Rightarrow> h[a := NdArr s (map (\<lambda>(x, y). wrap64 (x + y)) (zip xs inc))]
     | Csr s ip ix da \<Rightarrow> h)"

text \<open>The cycles of PCR on \<open>d\<close>, a view of shape \<open>dshape\<close> of the array at an
  address: \<open>n\<close> cycles are left, \<open>i\<close> is the number of the cycle.\<close>

fun pcr_cycles ::
  "(nat \<Rightarrow> nat \<Rightarrow> int \<Rightarrow> real \<Rightarrow> int) \<Rightarrow> nat \<Rightarrow> nat \<Rightarrow> addr \<Rightarrow> nat list \<Rightarrow>
   real ndarray \<Rightarrow> heap \<Rightarrow> (error + unit) \<times> heap" where
  "pcr_cycles bn 0 i d dshape betas h = (Inr (), h)"
| "pcr_cycles bn (Suc n) i d dshape betas h =
     (case binomial (bn i) (NdArray dshape (buf h d)) betas dshape of
        Inl e \<Rightarrow> (Inl e, h)
      | Inr inc \<Rightarrow> pcr_cycles bn n (Suc i) d dshape betas (iadd h d inc))"

text \<open>The body of \<open>pcr_noise\<close> after the copy: \<open>rc\<close> is the matrix worked on.\<close>

definition pcr_amplify ::
  "(nat \<Rightarrow> nat \<Rightarrow> int \<Rightarrow> real \<Rightarrow> int) \<Rightarrow> heap \<Rightarrow> addr \<Rightarrow> real ndarray \<Rightarrow> int \<Rightarrow>
   (error + addr) \<times> heap" where
  "pcr_amplify bn h1 rc pcr_betas n_cycles =
     (if length (obj_shape (h1 ! rc)) < 2
      then (Inl (IndexError ''tuple index out of range''), h1)
      else case broadcast_to pcr_betas [1, obj_shape (h1 ! rc) ! 1] of
        Inl e \<Rightarrow> (Inl e, h1)
      | Inr betas \<Rightarrow>
          (case h1 ! rc of
             Csr s ip ix da \<Rightarrow>
               (case take_columns betas (snd (nonzero ip ix (buf h1 da))) of
                  Inl e \<Rightarrow> (Inl e, h1)
                | Inr ps \<Rightarrow>
                    (case pcr_cycles bn (nat n_cycles) 0 da [1, length (buf h1 da)] ps h1 of
                       (Inl e, h2) \<Rightarrow> (Inl e, h2)
                     | (Inr u, h2) \<Rightarrow>
                         (Inr rc, (h2 @ [NdArr [length (buf h2 da)] (buf h2 da)])
                                    [rc := Csr s ip ix (length h2)])))
           | NdArr s xs \<Rightarrow>
               (case pcr_cycles bn (nat n_cycles) 0 rc s betas h1 of
                  (Inl e, h2) \<Rightarrow> (Inl e, h2)
                | (Inr u, h2) \<Rightarrow> (Inr rc, h2))))"

definition pcr_noise ::
  "(nat \<Rightarrow> nat \<Rightarrow> int \<Rightarrow> real \<Rightarrow> int) \<Rightarrow> heap \<Rightarrow> addr \<Rightarrow> real ndarray \<Rightarrow> int \<Rightarrow> bool \<Rightarrow>
   (error + addr) \<times> heap" where
  "pcr_noise bn h read_counts pcr_betas n_cycles copy =
     (if \<exists>b \<in> set (elems pcr_betas). b < 0
      then (Inl (ValueError ''pcr_betas must be non-negative''), h)
      else
        let (rc, h1) = (if copy then copy_obj h read_counts else (read_counts, h))
        in pcr_amplify bn h1 rc pcr_betas n_cycles)"

text \<open>The values a matrix stores (all entries of a dense one), and the same matrix with
  other values.\<close>

definition stored :: "matrix \<Rightarrow> int list" where
  "stored m = (case m of Dense s xs \<Rightarrow> xs | Sparse s ip ix d \<Rightarrow> d)"

definition with_stored :: "matrix \<Rightarrow> int list \<Rightarrow> matrix" where
  "with_stored m ys = (case m of Dense s xs \<Rightarrow> Dense s ys | Sparse s ip ix d \<Rightarrow> Sparse s ip ix ys)"


text \<open>What \<open>n\<close> cycles make of the stored values: no value becomes or stops being zero,
  and a value that \<open>n\<close> doublings keep below \<open>2^63\<close> has not decreased and is at most
  \<open>2^n\<close> times the former.\<close>

definition amplified :: "nat \<Rightarrow> int list \<Rightarrow> int list \<Rightarrow> bool" where
  "amplified n xs ys = (length ys = length xs \<and> (n = 0 \<longrightarrow> ys = xs) \<and>
     (\<forall>k < length xs. ((ys ! k = 0) = (xs ! k = 0)) \<and>
        (xs ! k * 2 ^ n < 2 ^ 63 \<longrightarrow> xs ! k \<le> ys ! k \<and> ys ! k \<le> xs ! k * 2 ^ n)))"

section \<open>A sampler for the examples\<close>

text \<open>A truncated-normal sampler that draws inside the interval: the midpoint of a bounded
  interval, a fifth of a standard deviation above a lower bound alone.\<close>

definition tn_mid :: "nat \<Rightarrow> real option \<Rightarrow> real option \<Rightarrow> real \<Rightarrow> real \<Rightarrow> real" where
  "tn_mid k a b loc scale =
     (case a of
        Some l \<Rightarrow> (case b of Some u \<Rightarrow> loc + (l + u) / 2 * scale
                            | None \<Rightarrow> loc + (l + 1 / 5) * scale)
      | None \<Rightarrow> (case b of Some u \<Rightarrow> loc + (u - 1) * scale | None \<Rightarrow> loc))"

text \<open>A multinomial sampler that puts every trial in the first category.\<close>

definition mn_first :: "nat \<Rightarrow> int \<Rightarrow> real list \<Rightarrow> int list" where
  "mn_first k n ps = (if ps = [] then [] else n # replicate (length ps - 1) 0)"

text \<open>A binomial sampler in which every trial of positive probability succeeds.\<close>

definition bn_all :: "nat \<Rightarrow> nat \<Rightarrow> int \<Rightarrow> real \<Rightarrow> int" where
  "bn_all i j n p = (if 0 < p then n else 0)"

text \<open>A binomial sampler in which only the trials of probability 1 succeed.\<close>

definition bn_none :: "nat \<Rightarrow> nat \<Rightarrow> int \<Rightarrow> real \<Rightarrow> int" where
  "bn_none i j n p = (if p = 1 then n else 0)"

section \<open>Properties\<close>

subsection \<open>Auxiliary facts\<close>

lemma bind_Inr_iff: "bind m f = Inr y \<longleftrightarrow> (\<exists>x. m = Inr x \<and> f x = Inr y)"
  by (cases m) (simp_all add: bind_def)

lemma wrap64_id: "is_int64 x \<Longrightarrow> wrap64 x = x"
  by (simp add: wrap64_def is_int64_def)

subsection \<open>Validation order of umi_counts\<close>

text \<open>
  C10. \<open>umi_counts\<close> checks non-negativity before dimensionality: a 1-d
  \<open>raw_expression\<close> with a negative value fails with the non-negativity error, not
  with the dimensionality error.
\<close>

theorem umi_counts_negative_before_dimension:
  assumes "length (shape raw_expression) = 1"
    and "\<exists>x \<in> set (elems raw_expression). x < 0"
  shows "umi_counts tn mn raw_expression lib_size fragments_per_gene sparse =
           Inl (ValueError ''raw_expression must be non-negative'') \<and>
         umi_counts tn mn raw_expression lib_size fragments_per_gene sparse \<noteq>
           Inl (ValueError ''raw_expression should be >= 2 dimensions'')"
  using assms by (simp add: umi_counts_def)

theorem umi_counts_negative_before_dimension_witness:
  "length (shape (NdArray [2] [1, - 1 :: real])) = 1 \<and>
   (\<exists>x \<in> set (elems (NdArray [2] [1, - 1 :: real])). x < 0) \<and>
   umi_counts (\<lambda>k a b loc scale. loc) (\<lambda>k n ps. []) (NdArray [2] [1, - 1]) None
     (NdArray [] [1]) False = Inl (ValueError ''raw_expression must be non-negative'')"
  using umi_counts_negative_before_dimension
    [of "NdArray [2] [1, - 1]" "\<lambda>k a b loc scale. loc" "\<lambda>k n ps. []" None "NdArray [] [1]" False]
  by simp




text \<open>A 0-d array passes the check \<open>len(shape) == 1\<close> and fails when its last axis is
  read.\<close>

lemma umi_counts_zero_dim:
  "umi_counts tn mn (NdArray [] [1]) lib_size fragments_per_gene sparse =
     Inl (IndexError ''tuple index out of range'')"
  by (simp add: umi_counts_def)

subsection \<open>fragment_genes\<close>

lemma poisson_lam_max_nonneg: "0 \<le> poisson_lam_max"
proof -
  have "sqrt 9223372036854775807 \<le> sqrt (4294967296 ^ 2)"
    by (rule real_sqrt_le_mono) simp
  also have "\<dots> = 4294967296" by (simp only: real_sqrt_abs abs_numeral)
  finally show ?thesis by (simp add: poisson_lam_max_def)
qed

text \<open>
  C8. For every \<open>n_genes\<close> and every \<open>lam \<ge> 0\<close> that numpy accepts,
  \<open>fragment_genes\<close> returns an array; every array it returns has \<open>n_genes\<close>
  integers, each at least 1; for \<open>lam = 0\<close> it returns the all-ones vector.
\<close>

theorem fragment_genes_at_least_one:
  assumes rng: "poisson_rng po"
  shows "(0 \<le> lam \<and> lam \<le> poisson_lam_max \<longrightarrow>
           (\<exists>xs. fragment_genes po n_genes lam = Inr (NdArray [n_genes] xs))) \<and>
         (\<forall>out. fragment_genes po n_genes lam = Inr out \<longrightarrow>
           shape out = [n_genes] \<and> length (elems out) = n_genes \<and>
           (\<forall>x \<in> set (elems out). 1 \<le> x)) \<and>
         fragment_genes po n_genes 0 = Inr (NdArray [n_genes] (replicate n_genes 1))"
proof -
  have w: "wrap64 (1 + int (po k l)) = 1 + int (po k l)" for k l
    using rng by (intro wrap64_id) (simp add: poisson_rng_def is_int64_def)
  have run: "fragment_genes po n_genes l =
      Inr (NdArray [n_genes] (map (\<lambda>k. 1 + int (po k l)) [0..<n_genes]))"
    if "0 \<le> l" and "l \<le> poisson_lam_max" for l
    using that by (simp add: fragment_genes_def poisson_def bind_def comp_def w)
  have ok: "0 \<le> l \<and> l \<le> poisson_lam_max" if "fragment_genes po n_genes l = Inr out" for l out
    using that by (auto simp: fragment_genes_def poisson_def bind_def split: if_splits)
  have "shape out = [n_genes] \<and> length (elems out) = n_genes \<and> (\<forall>x \<in> set (elems out). 1 \<le> x)"
    if "fragment_genes po n_genes lam = Inr out" for out
    using run [of lam] ok [OF that] that by auto
  moreover have "fragment_genes po n_genes 0 = Inr (NdArray [n_genes] (replicate n_genes 1))"
  proof -
    have "po k 0 = 0" for k using rng by (simp add: poisson_rng_def)
    then have "map (\<lambda>k. 1 + int (po k 0)) [0..<n_genes] = map (\<lambda>k. 1) [0..<n_genes]"
      by simp
    then show ?thesis
      using run [of 0] poisson_lam_max_nonneg by (simp add: map_replicate_const)
  qed
  ultimately show ?thesis using run [of lam] by blast
qed

theorem fragment_genes_at_least_one_witness:
  "poisson_rng (\<lambda>k lam. 0) \<and> fragment_genes (\<lambda>k lam. 0) 5 0 = Inr (NdArray [5] [1, 1, 1, 1, 1])"
proof -
  have p: "poisson_rng (\<lambda>k lam. 0)" by (simp add: poisson_rng_def)
  from fragment_genes_at_least_one [OF p, of 0 5]
  show ?thesis using p by (simp add: numeral_eq_Suc)
qed

subsection \<open>library_size\<close>








subsection \<open>umi_counts: rows and library sizes\<close>

lemma chunks_Suc: "chunks (Suc n) k xs = take k xs # chunks n k (drop k xs)"
proof -
  have "[0..<Suc n] = 0 # map Suc [0..<n]"
    by (simp add: upt_conv_Cons map_Suc_upt del: upt_Suc)
  then show ?thesis
    by (simp add: chunks_def comp_def add.commute del: upt_Suc)
qed

lemma chunks_concat:
  "\<forall>r \<in> set rows. length r = F \<Longrightarrow> chunks (length rows) F (concat rows) = rows"
proof (induction rows)
  case Nil
  then show ?case by (simp add: chunks_def)
next
  case (Cons a rows)
  then have "chunks (length rows) F (concat rows) = rows" and "length a = F" by simp_all
  then show ?case by (simp add: chunks_Suc)
qed

lemma length_concat_same:
  "\<forall>r \<in> set rows. length r = F \<Longrightarrow> length (concat rows) = length rows * F"
  by (induction rows) simp_all

lemma length_chunks [simp]: "length (chunks n k xs) = n"
  by (simp add: chunks_def)

lemma length_chunks_nth:
  assumes "length xs = n * k" and "i < n"
  shows "length (chunks n k xs ! i) = k"
proof -
  from assms(2) have "Suc i * k \<le> n * k" by (intro mult_le_mono1) simp
  then have "k \<le> n * k - i * k" by simp
  with assms show ?thesis by (simp add: chunks_def min_def)
qed

lemma length_repeat:
  "length (repeat row reps) = sum_list (map nat (take (length row) reps))"
proof (induction row arbitrary: reps)
  case Nil
  then show ?case by (simp add: repeat_def)
next
  case (Cons x row)
  then show ?case by (cases reps) (simp_all add: repeat_def)
qed

lemma length_normalize [simp]: "length (normalize row) = length row"
  by (simp add: normalize_def)

lemma multinomial_Inr:
  assumes "multinomial_rng mn" and "multinomial (mn k) n pv = Inr row"
  shows "length row = length pv \<and> (pv \<noteq> [] \<longrightarrow> sum_list row = n)"
proof -
  from assms(2) have n: "0 \<le> n" and row: "row = mn k n (map the pv)"
    by (auto simp: multinomial_def split: if_splits)
  from assms(1) n have "length (mn k n (map the pv)) = length (map the pv) \<and>
      (map the pv \<noteq> [] \<longrightarrow> sum_list (mn k n (map the pv)) = n)"
    unfolding multinomial_rng_def by blast
  with row show ?thesis by simp
qed

lemma sample_cells_Inr:
  "sample_cells mn i lib ps = Inr rows \<Longrightarrow>
     length rows = length ps \<and>
     (\<forall>j < length ps. multinomial (mn (i + j)) (lib ! (i + j)) (ps ! j) = Inr (rows ! j))"
proof (induction ps arbitrary: i rows)
  case Nil
  then show ?case by simp
next
  case (Cons p ps)
  from Cons.prems obtain row rest where row: "multinomial (mn i) (lib ! i) p = Inr row"
    and rest: "sample_cells mn (Suc i) lib ps = Inr rest" and rows: "rows = row # rest"
    by (auto simp: bind_Inr_iff)
  from Cons.IH [OF rest] have len: "length rest = length ps"
    and nth: "\<And>j. j < length ps \<Longrightarrow>
      multinomial (mn (Suc i + j)) (lib ! (Suc i + j)) (ps ! j) = Inr (rest ! j)"
    by simp_all
  show ?case
  proof (intro conjI allI impI)
    show "length rows = length (p # ps)" using len rows by simp
  next
    fix j assume j: "j < length (p # ps)"
    show "multinomial (mn (i + j)) (lib ! (i + j)) ((p # ps) ! j) = Inr (rows ! j)"
    proof (cases j)
      case 0
      with row rows show ?thesis by simp
    next
      case (Suc j')
      with j nth [of j'] rows show ?thesis by simp
    qed
  qed
qed

lemma mn_first_rng: "multinomial_rng mn_first"
proof -
  have "sum_list (replicate k (0::int)) = 0" for k by (induction k) simp_all
  then show ?thesis
    by (auto simp: multinomial_rng_def mn_first_def)
qed

lemma umi_counts_no_genes:
  "umi_counts tn_mid mn_first (NdArray [1, 0] []) (Some (NdArray [] [5])) (NdArray [] [1]) False
     = Inr (Dense [1, 0] [])"
  by (simp add: umi_counts_def assigned_lib_size_def broadcast_to_def chunks_def bind_def
      repeat_def normalize_def multinomial_def mn_first_def)

lemma umi_counts_two_genes:
  "umi_counts tn_mid mn_first (NdArray [1, 2] [1, 3]) (Some (NdArray [] [4])) (NdArray [] [1]) False
     = Inr (Dense [1, 2] [4, 0])"
proof -
  have lib: "broadcast_to (NdArray [] [4 :: int]) [Suc 0] = Inr (NdArray [Suc 0] [4])"
    by (simp add: broadcast_to_def chunks_def)
  have fpg: "broadcast_to (NdArray [] [1 :: int]) [2] = Inr (NdArray [2] [1, 1])"
    by (simp add: broadcast_to_def numeral_2_eq_2)
  have ch: "chunks (Suc 0) 2 [1, 3 :: real] = [[1, 3]]"
    by (simp add: chunks_def)
  have rep: "repeat [1, 3 :: real] [1, 1] = [1, 3]"
    by (simp add: repeat_def)
  have nm: "normalize [1, 3] = [Some (1 / 4), Some (3 / 4)]"
    by (simp add: normalize_def)
  have mn: "multinomial (mn_first 0) 4 [Some (1 / 4), Some (3 / 4)] = Inr [4, 0]"
    by (simp add: multinomial_def mn_first_def)
  show ?thesis
    by (simp add: umi_counts_def assigned_lib_size_def bind_def Let_def lib fpg ch rep nm mn)
qed

text \<open>
  C1 as stated (for every non-negative \<open>raw_expression\<close> with at least two axes the
  rows of the dense output sum to the library sizes) does not hold for an array without
  genes: with shape \<open>(1, 0)\<close> and \<open>lib_size = 5\<close> the multinomial draw over no
  category is empty, and the one row of the output sums to 0.
\<close>

theorem umi_counts_no_genes_counterexample:
  "multinomial_rng mn_first \<and> 2 \<le> length (shape (NdArray [1, 0] ([] :: real list))) \<and>
   umi_counts tn_mid mn_first (NdArray [1, 0] []) (Some (NdArray [] [5])) (NdArray [] [1]) False
     = Inr (Dense [1, 0] []) \<and>
   assigned_lib_size tn_mid [1] (Some (NdArray [] [5])) = Inr (NdArray [1] [5]) \<and>
   sum_list (dense_rows (Dense [1, 0] []) ! 0) \<noteq> 5"
  using mn_first_rng umi_counts_no_genes
  by (simp add: assigned_lib_size_def broadcast_to_def chunks_def dense_rows_def)

text \<open>
  C1, amended. When the dense output of \<open>umi_counts\<close> has at least one feature column,
  it has one row per cell and every row sums to the library size assigned to the cell (the
  argument broadcast to the cells, or the draw of \<open>library_size\<close>).
\<close>

theorem umi_counts_rows_sum:
  assumes rng: "multinomial_rng mn"
    and wf: "wf_array raw_expression"
    and run: "umi_counts tn mn raw_expression lib_size fragments_per_gene False = Inr (Dense s xs)"
    and feat: "0 < last s"
  shows "\<exists>lib. assigned_lib_size tn (butlast (shape raw_expression)) lib_size = Inr lib \<and>
           butlast s = butlast (shape raw_expression) \<and>
           length (dense_rows (Dense s xs)) = prod_list (butlast (shape raw_expression)) \<and>
           (\<forall>k < prod_list (butlast (shape raw_expression)).
              sum_list (dense_rows (Dense s xs) ! k) = elems lib ! k)"
proof -
  define n_cells where "n_cells = butlast (shape raw_expression)"
  define n_genes where "n_genes = last (shape raw_expression)"
  define m where "m = prod_list n_cells"
  from run have ne: "shape raw_expression \<noteq> []"
    by (auto simp: umi_counts_def split: if_splits)
  from run obtain lib fpg rows where
    lib: "assigned_lib_size tn n_cells lib_size = Inr lib"
    and fpg: "broadcast_to fragments_per_gene [n_genes] = Inr fpg"
    and rows: "sample_cells mn 0 (elems lib)
        (map normalize (map (\<lambda>row. repeat row (elems fpg))
           (chunks m n_genes (elems raw_expression)))) = Inr rows"
    and rne: "rows \<noteq> []"
    and s: "s = n_cells @ [length (concat rows) div m]" and xs: "xs = concat rows"
    unfolding umi_counts_def n_cells_def n_genes_def m_def Let_def
    by (auto simp: bind_Inr_iff split: if_splits)
  define F where "F = sum_list (map nat (take n_genes (elems fpg)))"
  define gene_p where "gene_p = map normalize (map (\<lambda>row. repeat row (elems fpg))
           (chunks m n_genes (elems raw_expression)))"
  have sh: "shape raw_expression = n_cells @ [n_genes]"
    using ne by (simp add: n_cells_def n_genes_def)
  have len: "length (elems raw_expression) = m * n_genes"
    using wf by (simp add: wf_array_def sh m_def)
  have lg: "length gene_p = m" by (simp add: gene_p_def)
  have pF: "length (gene_p ! k) = F" if "k < m" for k
    using that len by (simp add: gene_p_def length_repeat length_chunks_nth F_def)
  from sample_cells_Inr [OF rows [folded gene_p_def]]
  have lr: "length rows = m"
    and draw: "\<And>k. k < m \<Longrightarrow>
       multinomial (mn k) (elems lib ! k) (gene_p ! k) = Inr (rows ! k)"
    by (simp_all add: lg)
  have rF: "length (rows ! k) = F" if "k < m" for k
    using multinomial_Inr [OF rng draw [OF that]] pF [OF that] by simp
  have allF: "\<forall>r \<in> set rows. length r = F"
    using rF lr by (auto simp: in_set_conv_nth)
  from rne lr have mpos: "0 < m" by (cases rows) auto
  have lc: "length (concat rows) = m * F"
    using length_concat_same [OF allF] lr by simp
  then have s': "s = n_cells @ [F]" using s mpos by simp
  with feat have Fpos: "0 < F" by simp
  have dr: "dense_rows (Dense s xs) = rows"
    using chunks_concat [OF allF] by (simp add: dense_rows_def s' xs lr m_def)
  have sums: "sum_list (rows ! k) = elems lib ! k" if "k < m" for k
  proof -
    from pF [OF that] Fpos have "gene_p ! k \<noteq> []" by auto
    with multinomial_Inr [OF rng draw [OF that]] show ?thesis by simp
  qed
  show ?thesis
    using lib s' dr lr sums unfolding n_cells_def [symmetric] m_def [symmetric]
    by (intro exI [of _ lib]) simp
qed

theorem umi_counts_rows_sum_witness:
  "multinomial_rng mn_first \<and> wf_array (NdArray [1, 2] [1, 3 :: real]) \<and>
   umi_counts tn_mid mn_first (NdArray [1, 2] [1, 3]) (Some (NdArray [] [4])) (NdArray [] [1]) False
     = Inr (Dense [1, 2] [4, 0]) \<and> (0::nat) < last [1, 2] \<and>
   sum_list (dense_rows (Dense [1, 2] [4, 0]) ! 0) = 4"
proof -
  have wf: "wf_array (NdArray [1, 2] [1, 3 :: real])" by (simp add: wf_array_def)
  have feat: "(0::nat) < last [1, 2]" by simp
  from umi_counts_rows_sum [OF mn_first_rng wf umi_counts_two_genes feat]
  have "sum_list (dense_rows (Dense [1, 2] [4, 0]) ! 0) = 4"
    by (simp add: assigned_lib_size_def broadcast_to_def chunks_def)
  with mn_first_rng wf umi_counts_two_genes feat show ?thesis by blast
qed

subsection \<open>pcr_noise: validation and the caller's array\<close>

lemma bn_all_rng: "binomial_rng bn_all"
  by (simp add: binomial_rng_def bn_all_def)

lemma bn_none_rng: "binomial_rng bn_none"
  by (simp add: binomial_rng_def bn_none_def)

text \<open>
  C5. When \<open>pcr_betas\<close> has a negative value, \<open>pcr_noise\<close> fails with the validation
  error and the store is unchanged: nothing was copied or updated, also with
  \<open>copy = False\<close>.
\<close>

theorem pcr_noise_negative_betas:
  assumes "\<exists>b \<in> set (elems pcr_betas). b < 0"
  shows "pcr_noise bn h read_counts pcr_betas n_cycles copy =
           (Inl (ValueError ''pcr_betas must be non-negative''), h)"
  using assms by (simp add: pcr_noise_def)

theorem pcr_noise_negative_betas_witness:
  "(\<exists>b \<in> set (elems (NdArray [2] [1 / 2, - 1 :: real])). b < 0) \<and>
   pcr_noise bn_all [NdArr [1, 2] [3, 4]] 0 (NdArray [2] [1 / 2, - 1]) 2 False =
     (Inl (ValueError ''pcr_betas must be non-negative''), [NdArr [1, 2] [3, 4]])"
proof -
  have neg: "\<exists>b \<in> set (elems (NdArray [2] [1 / 2, - 1 :: real])). b < 0" by simp
  from pcr_noise_negative_betas [OF neg] show ?thesis using neg by blast
qed

text \<open>An in-place update and the cycles of PCR change the store at one address only.\<close>

lemma length_iadd [simp]: "length (iadd h a inc) = length h"
  by (simp add: iadd_def split: obj.splits)





lemma wf_heap_nth: "wf_heap h \<Longrightarrow> a < length h \<Longrightarrow> wf_obj h (h ! a)"
  by (simp add: wf_heap_def list_all_length)




subsection \<open>Broadcasting and the binomial draws\<close>

lemma concat_chunks: "length xs = n * k \<Longrightarrow> concat (chunks n k xs) = xs"
proof (induction n arbitrary: xs)
  case 0
  then show ?case by (simp add: chunks_def)
next
  case (Suc n)
  then have "length (drop k xs) = n * k" by simp
  from Suc.IH [OF this] show ?case by (simp add: chunks_Suc)
qed

lemma length_chunk_in_set:
  assumes "length xs = n * k" and "x \<in> set (chunks n k xs)"
  shows "length x = k"
proof -
  from assms(2) obtain i where "i < n" and "x = chunks n k xs ! i"
    by (auto simp: in_set_conv_nth)
  with length_chunks_nth [OF assms(1)] show ?thesis by simp
qed

lemma set_chunk_subset: "x \<in> set (chunks n k xs) \<Longrightarrow> set x \<subseteq> set xs"
  by (auto simp: chunks_def dest: in_set_takeD in_set_dropD)

lemma those_map_Some:
  "those (map f xs) = Some ys \<Longrightarrow>
     length ys = length xs \<and> (\<forall>i < length xs. f (xs ! i) = Some (ys ! i))"
proof (induction xs arbitrary: ys)
  case Nil
  then show ?case by simp
next
  case (Cons x xs)
  from Cons.prems obtain y zs where y: "f x = Some y" and zs: "those (map f xs) = Some zs"
    and ys: "ys = y # zs"
    by (auto split: option.splits)
  from Cons.IH [OF zs] y ys show ?case
    by (auto simp: nth_Cons split: nat.splits)
qed

lemma those_map_id:
  "(\<And>x. x \<in> set xs \<Longrightarrow> f x = Some x) \<Longrightarrow> those (map f xs) = Some xs"
  by (induction xs) simp_all

lemma bcast_same: "length xs = prod_list s \<Longrightarrow> bcast s s xs = Some xs"
proof (induction s arbitrary: xs)
  case Nil
  then show ?case by simp
next
  case (Cons a s)
  then have len: "length xs = a * prod_list s" by simp
  have "bcast s s x = Some x" if "x \<in> set (chunks a (prod_list s) xs)" for x
    using Cons.IH length_chunk_in_set [OF len that] by simp
  then have "those (map (bcast s s) (chunks a (prod_list s) xs)) = Some (chunks a (prod_list s) xs)"
    by (rule those_map_id)
  then show ?case by (simp add: concat_chunks [OF len])
qed

lemma bcast_length:
  "bcast s t xs = Some ys \<Longrightarrow> length xs = prod_list s \<Longrightarrow> length ys = prod_list t"
proof (induction s t xs arbitrary: ys rule: bcast.induct)
  case (1 xs)
  then show ?case by simp
next
  case (2 a s b t xs)
  from "2.prems"(2) have len: "length xs = a * prod_list s" by simp
  show ?case
  proof (cases "a = b")
    case True
    with "2.prems"(1) obtain yss where
      yss: "those (map (bcast s t) (chunks a (prod_list s) xs)) = Some yss" and ys: "ys = concat yss"
      by auto
    from those_map_Some [OF yss] have l: "length yss = a"
      and nth: "\<And>i. i < a \<Longrightarrow> bcast s t (chunks a (prod_list s) xs ! i) = Some (yss ! i)"
      by simp_all
    have "length y = prod_list t" if "y \<in> set yss" for y
    proof -
      from that l obtain i where i: "i < a" and y: "y = yss ! i"
        by (auto simp: in_set_conv_nth)
      have mem: "chunks a (prod_list s) xs ! i \<in> set (chunks a (prod_list s) xs)"
        using i by simp
      from "2.IH"(1) [OF True mem nth [OF i]] length_chunks_nth [OF len i] y
      show ?thesis by simp
    qed
    then have "\<forall>y \<in> set yss. length y = prod_list t" by blast
    from length_concat_same [OF this] l ys True show ?thesis by simp
  next
    case False
    with "2.prems"(1) have a1: "a = 1" by (auto split: if_splits)
    with False "2.prems"(1) obtain zs where zs: "bcast s t xs = Some zs"
      and ys: "ys = concat (replicate b zs)"
      by auto
    from "2.IH"(2) [OF False a1 zs] len a1 have "length zs = prod_list t" by simp
    then have "length (concat (replicate b zs)) = b * prod_list t"
      by (induction b) simp_all
    with ys show ?thesis by simp
  qed
qed simp_all

lemma bcast_set: "bcast s t xs = Some ys \<Longrightarrow> set ys \<subseteq> set xs"
proof (induction s t xs arbitrary: ys rule: bcast.induct)
  case (1 xs)
  then show ?case by simp
next
  case (2 a s b t xs)
  show ?case
  proof (cases "a = b")
    case True
    with "2.prems" obtain yss where
      yss: "those (map (bcast s t) (chunks a (prod_list s) xs)) = Some yss" and ys: "ys = concat yss"
      by auto
    from those_map_Some [OF yss] have l: "length yss = a"
      and nth: "\<And>i. i < a \<Longrightarrow> bcast s t (chunks a (prod_list s) xs ! i) = Some (yss ! i)"
      by simp_all
    have "set y \<subseteq> set xs" if "y \<in> set yss" for y
    proof -
      from that l obtain i where i: "i < a" and y: "y = yss ! i"
        by (auto simp: in_set_conv_nth)
      have mem: "chunks a (prod_list s) xs ! i \<in> set (chunks a (prod_list s) xs)"
        using i by simp
      from "2.IH"(1) [OF True mem nth [OF i]] set_chunk_subset [OF mem] y
      show ?thesis by blast
    qed
    with ys show ?thesis by auto
  next
    case False
    with "2.prems" have a1: "a = 1" by (auto split: if_splits)
    with False "2.prems" obtain zs where zs: "bcast s t xs = Some zs"
      and ys: "ys = concat (replicate b zs)"
      by auto
    from "2.IH"(2) [OF False a1 zs] ys show ?thesis by auto
  qed
qed simp_all

lemma broadcast_to_Inr:
  assumes "broadcast_to a t = Inr b" and "wf_array a"
  shows "shape b = t \<and> length (elems b) = prod_list t \<and> set (elems b) \<subseteq> set (elems a)"
proof -
  define s where "s = replicate (length t - length (shape a)) 1 @ shape a"
  from assms(1) obtain ys where ys: "bcast s t (elems a) = Some ys" and b: "b = NdArray t ys"
    by (auto simp: broadcast_to_def s_def split: if_splits option.splits)
  have "prod_list s = prod_list (shape a)" by (simp add: s_def)
  with assms(2) have "length (elems a) = prod_list s" by (simp add: wf_array_def)
  from bcast_length [OF ys this] bcast_set [OF ys] b show ?thesis by simp
qed

lemma broadcast_to_same:
  "length xs = prod_list s \<Longrightarrow> broadcast_to (NdArray s xs) s = Inr (NdArray s xs)"
  by (simp add: broadcast_to_def bcast_same)

lemma binomial_Inr:
  assumes rng: "binomial_rng bn" and wf: "wf_array p"
    and len: "length xs = prod_list dshape"
    and run: "binomial (bn i) (NdArray dshape xs) p dshape = Inr inc"
  shows "length inc = length xs \<and>
         (\<forall>k < length xs. 0 \<le> xs ! k \<and> 0 \<le> inc ! k \<and> inc ! k \<le> xs ! k)"
proof -
  from run have pok: "\<forall>q \<in> set (elems p). 0 \<le> q \<and> q \<le> 1" and nok: "\<forall>k \<in> set xs. 0 \<le> k"
    by (auto simp: binomial_def split: if_splits)
  from run pok nok obtain ps where ps: "broadcast_to p dshape = Inr ps"
    and inc: "inc = map (\<lambda>j. bn i j (xs ! j) (elems ps ! j)) [0..<prod_list dshape]"
    by (auto simp: binomial_def broadcast_to_same [OF len] split: if_splits sum.splits)
  from broadcast_to_Inr [OF ps wf] have lps: "length (elems ps) = prod_list dshape"
    and sub: "set (elems ps) \<subseteq> set (elems p)"
    by simp_all
  have "0 \<le> xs ! k \<and> 0 \<le> inc ! k \<and> inc ! k \<le> xs ! k" if k: "k < length xs" for k
  proof -
    from k nok have n: "0 \<le> xs ! k" by simp
    from k len lps sub have "elems ps ! k \<in> set (elems p)" by (auto simp: subset_iff)
    with pok have "0 \<le> elems ps ! k" "elems ps ! k \<le> 1" by auto
    with rng n have "0 \<le> bn i k (xs ! k) (elems ps ! k) \<and> bn i k (xs ! k) (elems ps ! k) \<le> xs ! k"
      unfolding binomial_rng_def by blast
    with n k len inc show ?thesis by simp
  qed
  with inc len show ?thesis by simp
qed

subsection \<open>The cycles of PCR\<close>

lemma is_int64_wrap64: "is_int64 (wrap64 z)"
proof -
  have "0 \<le> (z + 2 ^ 63) mod (2 ^ 64 :: int)" "(z + 2 ^ 63) mod (2 ^ 64 :: int) < 2 ^ 64"
    by simp_all
  then show ?thesis by (simp add: wrap64_def is_int64_def)
qed

lemma wrap64_step:
  assumes "is_int64 x" and "0 \<le> x" and "0 \<le> c" and "c \<le> x"
  shows "(wrap64 (x + c) = 0) = (x = 0)"
    and "2 * x < 2 ^ 63 \<Longrightarrow> wrap64 (x + c) = x + c"
proof -
  show "wrap64 (x + c) = x + c" if "2 * x < 2 ^ 63"
    using that assms by (intro wrap64_id) (simp add: is_int64_def)
  show "(wrap64 (x + c) = 0) = (x = 0)"
  proof (cases "x + c < 2 ^ 63")
    case True
    with assms have "wrap64 (x + c) = x + c" by (intro wrap64_id) (simp add: is_int64_def)
    with assms show ?thesis by auto
  next
    case False
    with assms have lo: "2 ^ 64 \<le> x + c + 2 ^ 63" and hi: "x + c + 2 ^ 63 < 2 * 2 ^ 64"
      by (simp_all add: is_int64_def)
    have "(x + c + 2 ^ 63) mod 2 ^ 64 = x + c + 2 ^ 63 - 2 ^ 64"
      using lo hi by (simp add: mod_pos_geq)
    then have "wrap64 (x + c) = x + c - 2 ^ 64" by (simp add: wrap64_def)
    with False assms show ?thesis by (auto simp: is_int64_def)
  qed
qed

lemma iadd_NdArr:
  "h ! d = NdArr s xs \<Longrightarrow>
     iadd h d inc = h[d := NdArr s (map (\<lambda>(x, y). wrap64 (x + y)) (zip xs inc))]"
  by (simp add: iadd_def)

lemma pcr_cycles_Inr:
  assumes rng: "binomial_rng bn" and wf: "wf_array betas"
  shows "d < length h \<Longrightarrow> h ! d = NdArr s xs \<Longrightarrow> length xs = prod_list dshape \<Longrightarrow>
     list_all is_int64 xs \<Longrightarrow>
     pcr_cycles bn n i d dshape betas h = (Inr u, h') \<Longrightarrow>
     \<exists>ys. h' = h[d := NdArr s ys] \<and> length ys = length xs \<and> list_all is_int64 ys \<and>
       (n = 0 \<longrightarrow> ys = xs) \<and>
       (\<forall>k < length xs. ((ys ! k = 0) = (xs ! k = 0)) \<and>
          (xs ! k * 2 ^ n < 2 ^ 63 \<longrightarrow> xs ! k \<le> ys ! k \<and> ys ! k \<le> xs ! k * 2 ^ n))"
proof (induction n arbitrary: i h xs)
  case 0
  then have "h' = h" by simp
  moreover have "h[d := NdArr s xs] = h"
    using "0.prems"(1,2) by (metis list_update_id)
  ultimately show ?case using "0.prems"(4) by (intro exI [of _ xs]) simp
next
  case (Suc n)
  have bufd: "buf h d = xs" using Suc.prems(2) by (simp add: buf_def)
  from Suc.prems(5) obtain inc where
    inc: "binomial (bn i) (NdArray dshape xs) betas dshape = Inr inc"
    and rest: "pcr_cycles bn n (Suc i) d dshape betas (iadd h d inc) = (Inr u, h')"
    by (auto simp: bufd split: sum.splits)
  from binomial_Inr [OF rng wf Suc.prems(3) inc] have linc: "length inc = length xs"
    and draw: "\<And>k. k < length xs \<Longrightarrow> 0 \<le> xs ! k \<and> 0 \<le> inc ! k \<and> inc ! k \<le> xs ! k"
    by simp_all
  define zs where "zs = map (\<lambda>(x, y). wrap64 (x + y)) (zip xs inc)"
  have h1: "iadd h d inc = h[d := NdArr s zs]"
    using iadd_NdArr [OF Suc.prems(2)] by (simp add: zs_def)
  have lzs: "length zs = length xs" by (simp add: zs_def linc)
  have zk: "zs ! k = wrap64 (xs ! k + inc ! k)" if "k < length xs" for k
    using that linc by (simp add: zs_def)
  have izs: "list_all is_int64 zs"
    by (simp add: zs_def list_all_iff is_int64_wrap64 split_beta)
  have ixs: "is_int64 (xs ! k)" if "k < length xs" for k
    using Suc.prems(4) that by (simp add: list_all_length)
  have "\<exists>ys. h' = (h[d := NdArr s zs])[d := NdArr s ys] \<and> length ys = length zs \<and>
       list_all is_int64 ys \<and> (n = 0 \<longrightarrow> ys = zs) \<and>
       (\<forall>k < length zs. ((ys ! k = 0) = (zs ! k = 0)) \<and>
          (zs ! k * 2 ^ n < 2 ^ 63 \<longrightarrow> zs ! k \<le> ys ! k \<and> ys ! k \<le> zs ! k * 2 ^ n))"
    using Suc.prems(1,3) lzs izs rest [unfolded h1]
    by (intro Suc.IH) simp_all
  then obtain ys where h': "h' = h[d := NdArr s ys]" and lys: "length ys = length xs"
    and iys: "list_all is_int64 ys"
    and ysk: "\<And>k. k < length xs \<Longrightarrow> ((ys ! k = 0) = (zs ! k = 0)) \<and>
          (zs ! k * 2 ^ n < 2 ^ 63 \<longrightarrow> zs ! k \<le> ys ! k \<and> ys ! k \<le> zs ! k * 2 ^ n)"
    using lzs by auto
  have "((ys ! k = 0) = (xs ! k = 0)) \<and>
          (xs ! k * 2 ^ Suc n < 2 ^ 63 \<longrightarrow> xs ! k \<le> ys ! k \<and> ys ! k \<le> xs ! k * 2 ^ Suc n)"
    if k: "k < length xs" for k
  proof -
    from draw [OF k] have x0: "0 \<le> xs ! k" and c0: "0 \<le> inc ! k" and cx: "inc ! k \<le> xs ! k"
      by simp_all
    note st = wrap64_step [OF ixs [OF k] x0 c0 cx]
    have zero: "(ys ! k = 0) = (xs ! k = 0)"
      using ysk [OF k] st(1) by (simp add: zk [OF k])
    have "xs ! k \<le> ys ! k \<and> ys ! k \<le> xs ! k * 2 ^ Suc n" if small: "xs ! k * 2 ^ Suc n < 2 ^ 63"
    proof -
      have p1: "(1::int) \<le> 2 ^ n" by simp
      have "2 * xs ! k \<le> xs ! k * 2 ^ Suc n"
        using x0 mult_left_mono [OF p1 x0] by simp
      with small have "2 * xs ! k < 2 ^ 63" by simp
      from st(2) [OF this] have z: "zs ! k = xs ! k + inc ! k" by (simp add: zk [OF k])
      have "zs ! k * 2 ^ n \<le> (2 * xs ! k) * 2 ^ n"
        using z cx by (intro mult_right_mono) simp_all
      then have zb: "zs ! k * 2 ^ n \<le> xs ! k * 2 ^ Suc n" by simp
      from zb small have "zs ! k * 2 ^ n < 2 ^ 63" by (rule le_less_trans)
      with ysk [OF k] have zy: "zs ! k \<le> ys ! k" and yz: "ys ! k \<le> zs ! k * 2 ^ n"
        by blast+
      from z c0 zy have "xs ! k \<le> ys ! k" by linarith
      moreover from yz zb have "ys ! k \<le> xs ! k * 2 ^ Suc n" by (rule order_trans)
      ultimately show ?thesis by blast
    qed
    with zero show ?thesis by simp
  qed
  with h' lys iys show ?case by (intro exI [of _ ys]) simp
qed

subsection \<open>The result of pcr_noise\<close>

lemma wf_obj_append: "wf_obj h ob \<Longrightarrow> wf_obj (h @ hs) ob"
  by (auto simp: wf_obj_def nth_append split: obj.splits)

lemma pcr_cycles_amplified:
  assumes "binomial_rng bn" and "wf_array betas" and "d < length h" and "h ! d = NdArr s xs"
    and "length xs = prod_list dshape" and "list_all is_int64 xs"
    and "pcr_cycles bn n i d dshape betas h = (Inr u, h')"
  shows "\<exists>ys. h' = h[d := NdArr s ys] \<and> amplified n xs ys"
proof -
  from pcr_cycles_Inr [OF assms] obtain ys where "h' = h[d := NdArr s ys]"
    and "length ys = length xs" and "n = 0 \<longrightarrow> ys = xs"
    and "\<forall>k < length xs. ((ys ! k = 0) = (xs ! k = 0)) \<and>
          (xs ! k * 2 ^ n < 2 ^ 63 \<longrightarrow> xs ! k \<le> ys ! k \<and> ys ! k \<le> xs ! k * 2 ^ n)"
    by blast
  then show ?thesis unfolding amplified_def by blast
qed

lemma pcr_amplify_Inr:
  assumes rng: "binomial_rng bn" and wfb: "wf_array pcr_betas"
    and wf: "wf_heap h1" and rc: "rc < length h1"
    and run: "pcr_amplify bn h1 rc pcr_betas n_cycles = (Inr out, h')"
  shows "out = rc \<and> (\<exists>ys. read_matrix h' rc = with_stored (read_matrix h1 rc) ys \<and>
           amplified (nat n_cycles) (stored (read_matrix h1 rc)) ys)"
proof (cases "h1 ! rc")
  case (NdArr s xs)
  from wf_heap_nth [OF wf rc] NdArr have len: "length xs = prod_list s"
    and ints: "list_all is_int64 xs"
    by (simp_all add: wf_obj_def)
  have run1: "(case broadcast_to pcr_betas [1, s ! 1] of
        Inl e \<Rightarrow> (Inl e, h1)
      | Inr betas \<Rightarrow>
          (case pcr_cycles bn (nat n_cycles) 0 rc s betas h1 of
             (Inl e, h2) \<Rightarrow> (Inl e, h2)
           | (Inr u, h2) \<Rightarrow> (Inr rc, h2))) = (Inr out, h')"
    using run by (simp add: pcr_amplify_def NdArr obj_shape_def cong: sum.case_cong split: if_splits)
  then obtain betas where b: "broadcast_to pcr_betas [1, s ! 1] = Inr betas"
    and run2: "(case pcr_cycles bn (nat n_cycles) 0 rc s betas h1 of
             (Inl e, h2) \<Rightarrow> (Inl e, h2)
           | (Inr u, h2) \<Rightarrow> (Inr rc, h2)) = (Inr out, h')"
    by (cases "broadcast_to pcr_betas [1, s ! 1]") simp_all
  obtain r h2 where c0: "pcr_cycles bn (nat n_cycles) 0 rc s betas h1 = (r, h2)"
    by (cases "pcr_cycles bn (nat n_cycles) 0 rc s betas h1")
  with run2 obtain u where cyc: "pcr_cycles bn (nat n_cycles) 0 rc s betas h1 = (Inr u, h')"
    and out: "out = rc"
    by (cases r) simp_all
  from broadcast_to_Inr [OF b wfb] have wb: "wf_array betas" by (simp add: wf_array_def)
  from pcr_cycles_amplified [OF rng wb rc NdArr len ints cyc]
  obtain ys where h': "h' = h1[rc := NdArr s ys]" and amp: "amplified (nat n_cycles) xs ys"
    by blast
  have "read_matrix h' rc = Dense s ys" using h' rc by (simp add: read_matrix_def)
  with amp out NdArr show ?thesis
    by (auto simp: read_matrix_def with_stored_def stored_def)
next
  case (Csr s ip ix da)
  from wf_heap_nth [OF wf rc] Csr obtain xs where da: "da < length h1"
    and hda: "h1 ! da = NdArr [length ix] xs"
    by (auto simp: wf_obj_def split: obj.splits)
  from wf_heap_nth [OF wf da] hda have len: "length xs = length ix"
    and ints: "list_all is_int64 xs"
    by (simp_all add: wf_obj_def)
  have bufda: "buf h1 da = xs" using hda by (simp add: buf_def)
  from Csr hda have neq: "da \<noteq> rc" by auto
  have run1: "(case broadcast_to pcr_betas [1, snd s] of
        Inl e \<Rightarrow> (Inl e, h1)
      | Inr betas \<Rightarrow>
          (case take_columns betas (snd (nonzero ip ix xs)) of
             Inl e \<Rightarrow> (Inl e, h1)
           | Inr ps \<Rightarrow>
               (case pcr_cycles bn (nat n_cycles) 0 da [1, length xs] ps h1 of
                  (Inl e, h2) \<Rightarrow> (Inl e, h2)
                | (Inr u, h2) \<Rightarrow>
                    (Inr rc, (h2 @ [NdArr [length (buf h2 da)] (buf h2 da)])
                               [rc := Csr s ip ix (length h2)])))) = (Inr out, h')"
    using run by (simp add: pcr_amplify_def Csr obj_shape_def bufda cong: sum.case_cong)
  then obtain betas where b: "broadcast_to pcr_betas [1, snd s] = Inr betas"
    and run2: "(case take_columns betas (snd (nonzero ip ix xs)) of
             Inl e \<Rightarrow> (Inl e, h1)
           | Inr ps \<Rightarrow>
               (case pcr_cycles bn (nat n_cycles) 0 da [1, length xs] ps h1 of
                  (Inl e, h2) \<Rightarrow> (Inl e, h2)
                | (Inr u, h2) \<Rightarrow>
                    (Inr rc, (h2 @ [NdArr [length (buf h2 da)] (buf h2 da)])
                               [rc := Csr s ip ix (length h2)]))) = (Inr out, h')"
    by (cases "broadcast_to pcr_betas [1, snd s]") simp_all
  then obtain ps where ps: "take_columns betas (snd (nonzero ip ix xs)) = Inr ps"
    and run3: "(case pcr_cycles bn (nat n_cycles) 0 da [1, length xs] ps h1 of
                  (Inl e, h2) \<Rightarrow> (Inl e, h2)
                | (Inr u, h2) \<Rightarrow>
                    (Inr rc, (h2 @ [NdArr [length (buf h2 da)] (buf h2 da)])
                               [rc := Csr s ip ix (length h2)])) = (Inr out, h')"
    by (cases "take_columns betas (snd (nonzero ip ix xs))") simp_all
  obtain r h2 where c0: "pcr_cycles bn (nat n_cycles) 0 da [1, length xs] ps h1 = (r, h2)"
    by (cases "pcr_cycles bn (nat n_cycles) 0 da [1, length xs] ps h1")
  with run3 obtain u where ru: "r = Inr u" by (cases r) simp_all
  from c0 ru have cyc: "pcr_cycles bn (nat n_cycles) 0 da [1, length xs] ps h1 = (Inr u, h2)"
    by simp
  from run3 [unfolded cyc] have "(Inr rc :: error + addr, (h2 @ [NdArr [length (buf h2 da)] (buf h2 da)])
      [rc := Csr s ip ix (length h2)]) = (Inr out, h')"
    by (simp only: prod.case sum.case)
  then have out: "out = rc"
    and h': "h' = (h2 @ [NdArr [length (buf h2 da)] (buf h2 da)])[rc := Csr s ip ix (length h2)]"
    by blast+
  from ps have wp: "wf_array ps"
    by (auto simp: take_columns_def wf_array_def split: if_splits)
  have lx: "length xs = prod_list [1, length xs]" by simp
  from pcr_cycles_amplified [OF rng wp da hda lx ints cyc]
  obtain ys where h2: "h2 = h1[da := NdArr [length ix] ys]"
    and amp: "amplified (nat n_cycles) xs ys"
    by blast
  have l2: "length h2 = length h1" by (simp add: h2)
  have b2: "buf h2 da = ys" using da by (simp add: h2 buf_def)
  have "h' ! rc = Csr s ip ix (length h2)" using rc l2 by (simp add: h')
  moreover have "h' ! length h2 = NdArr [length ys] ys"
    using rc l2 by (simp add: h' b2 nth_append)
  then have "buf h' (length h2) = ys" by (simp add: buf_def)
  ultimately have "read_matrix h' rc = Sparse s ip ix ys" by (simp add: read_matrix_def)
  with amp out Csr bufda show ?thesis
    by (auto simp: read_matrix_def with_stored_def stored_def)
qed

lemma wf_heap_copy:
  assumes wf: "wf_heap h" and rc: "read_counts < length h"
    and cp: "copy_obj h read_counts = (rc', h1)"
  shows "wf_heap h1 \<and> rc' < length h1 \<and> read_matrix h1 rc' = read_matrix h read_counts"
proof (cases "h ! read_counts")
  case (NdArr s xs)
  with cp have h1: "h1 = h @ [NdArr s xs]" and rc': "rc' = length h"
    by (simp_all add: copy_obj_def)
  from wf_heap_nth [OF wf rc] NdArr have "wf_obj h1 (NdArr s xs)"
    by (simp add: wf_obj_def)
  moreover have "list_all (wf_obj h1) h"
    using wf by (auto simp: wf_heap_def list_all_iff h1 intro: wf_obj_append)
  ultimately have "wf_heap h1" by (simp add: wf_heap_def h1)
  then show ?thesis using NdArr by (simp add: h1 rc' read_matrix_def)
next
  case (Csr s ip ix da)
  with cp have h1: "h1 = h @ [h ! da, Csr s ip ix (length h)]" and rc': "rc' = Suc (length h)"
    by (simp_all add: copy_obj_def)
  from wf_heap_nth [OF wf rc] Csr obtain xs where da: "da < length h"
    and hda: "h ! da = NdArr [length ix] xs"
    by (auto simp: wf_obj_def split: obj.splits)
  from wf_heap_nth [OF wf da] hda have "wf_obj h1 (h ! da)"
    by (simp add: wf_obj_def)
  moreover have "wf_obj h1 (Csr s ip ix (length h))"
    by (simp add: wf_obj_def h1 hda)
  moreover have "list_all (wf_obj h1) h"
    using wf by (auto simp: wf_heap_def list_all_iff h1 intro: wf_obj_append)
  ultimately have "wf_heap h1" by (simp add: wf_heap_def h1)
  then show ?thesis using Csr hda da
    by (simp add: h1 rc' read_matrix_def buf_def nth_append)
qed

lemma pcr_noise_Inr:
  assumes rng: "binomial_rng bn" and wfb: "wf_array pcr_betas"
    and wf: "wf_heap h" and rc: "read_counts < length h"
    and run: "pcr_noise bn h read_counts pcr_betas n_cycles copy = (Inr out, h')"
  shows "\<exists>ys. read_matrix h' out = with_stored (read_matrix h read_counts) ys \<and>
           amplified (nat n_cycles) (stored (read_matrix h read_counts)) ys"
proof (cases copy)
  case True
  obtain rc' h1 where cp: "copy_obj h read_counts = (rc', h1)" by (cases "copy_obj h read_counts")
  with run True have amp: "pcr_amplify bn h1 rc' pcr_betas n_cycles = (Inr out, h')"
    by (auto simp: pcr_noise_def split: if_splits)
  from wf_heap_copy [OF wf rc cp] have wf1: "wf_heap h1" and rc1: "rc' < length h1"
    and same: "read_matrix h1 rc' = read_matrix h read_counts"
    by simp_all
  from pcr_amplify_Inr [OF rng wfb wf1 rc1 amp] same show ?thesis by auto
next
  case False
  with run have amp: "pcr_amplify bn h read_counts pcr_betas n_cycles = (Inr out, h')"
    by (auto simp: pcr_noise_def split: if_splits)
  from pcr_amplify_Inr [OF rng wfb wf rc amp] show ?thesis by auto
qed

subsection \<open>pcr_noise: amplification and sparsity\<close>

lemma nonzero_cong:
  "length d' = length d \<Longrightarrow> \<forall>k < length d. (d' ! k = 0) = (d ! k = 0) \<Longrightarrow>
     map fst (filter (\<lambda>(c, v). v \<noteq> 0) (zip cs d')) =
     map fst (filter (\<lambda>(c, v). v \<noteq> (0::int)) (zip (cs :: nat list) d))"
proof (induction cs arbitrary: d d')
  case Nil
  then show ?case by simp
next
  case (Cons c cs)
  show ?case
  proof (cases d)
    case Nil
    with Cons.prems show ?thesis by simp
  next
    case d: (Cons x xs)
    with Cons.prems(1) obtain y ys where d': "d' = y # ys" by (cases d') auto
    from Cons.prems d d' have l: "length ys = length xs"
      and hd: "(y = 0) = (x = 0)"
      and tl: "\<forall>k < length xs. (ys ! k = 0) = (xs ! k = 0)"
      by auto
    from Cons.IH [OF l tl] hd show ?thesis by (simp add: d d')
  qed
qed




lemma pcr_noise_sparse_run:
  "pcr_noise bn_all [NdArr [2] [3, 5], Csr (2, 3) [0, 1, 2] [0, 2] 0] 1 (NdArray [] [1 / 2]) 1 False =
     (Inr 1, [NdArr [2] [6, 10], Csr (2, 3) [0, 1, 2] [0, 2] 2, NdArr [2] [6, 10]])"
proof -
  have nz: "nonzero [0, Suc 0, 2] [0, 2] [3, 5] = ([0, Suc 0], [0, 2])"
    by (simp add: nonzero_def expandptr_def numeral_2_eq_2)
  have b: "broadcast_to (NdArray [] [1 / 2 :: real]) [Suc 0, 3] =
      Inr (NdArray [Suc 0, 3] [1 / 2, 1 / 2, 1 / 2])"
    by (simp add: broadcast_to_def chunks_def numeral_3_eq_3)
  have tc: "take_columns (NdArray [Suc 0, 3] [1 / 2, 1 / 2, 1 / 2]) [0, 2] =
      Inr (NdArray [Suc 0, 2] [1 / 2, 1 / 2])"
    by (simp add: take_columns_def numeral_2_eq_2)
  have bi: "binomial (bn_all 0) (NdArray [Suc 0, Suc (Suc 0)] [3, 5])
      (NdArray [Suc 0, 2] [1 / 2, 1 / 2]) [Suc 0, Suc (Suc 0)] = Inr [3, 5]"
    by (simp add: binomial_def broadcast_to_def chunks_def bn_all_def numeral_2_eq_2)
  show ?thesis
    by (simp add: pcr_noise_def pcr_amplify_def obj_shape_def buf_def nz b tc bi iadd_def wrap64_def)
qed


lemma wf_heap_sparse_example2: "wf_heap [NdArr [2] [3, 5], Csr (2, 3) [0, 1, 2] [0, 2] 0]"
  by (simp add: wf_heap_def wf_obj_def is_int64_def)

text \<open>
  C3. On a sparse input, when \<open>pcr_noise\<close> returns, the matrix returned has the shape,
  the row pointers and the column indices of the input and as many stored values; a stored
  value is zero exactly when it was zero before, so the nonzero positions are those of the
  input.
\<close>

theorem pcr_noise_sparse_pattern:
  assumes rng: "binomial_rng bn" and wfb: "wf_array pcr_betas"
    and wf: "wf_heap h" and rc: "read_counts < length h"
    and sparse: "read_matrix h read_counts = Sparse s ip ix d"
    and run: "pcr_noise bn h read_counts pcr_betas n_cycles copy = (Inr out, h')"
  shows "\<exists>d'. read_matrix h' out = Sparse s ip ix d' \<and> length d' = length d \<and>
           (\<forall>k < length d. (d' ! k = 0) = (d ! k = 0)) \<and>
           nonzero ip ix d' = nonzero ip ix d"
proof -
  from pcr_noise_Inr [OF rng wfb wf rc run] sparse obtain d' where
    m: "read_matrix h' out = Sparse s ip ix d'" and amp: "amplified (nat n_cycles) d d'"
    by (auto simp: with_stored_def stored_def)
  from amp have l: "length d' = length d"
    and z: "\<forall>k < length d. (d' ! k = 0) = (d ! k = 0)"
    unfolding amplified_def by blast+
  from nonzero_cong [OF l z] have "nonzero ip ix d' = nonzero ip ix d"
    by (simp add: nonzero_def)
  with m l z show ?thesis by blast
qed

theorem pcr_noise_sparse_pattern_witness:
  "binomial_rng bn_all \<and> wf_array (NdArray [] [1 / 2 :: real]) \<and>
   wf_heap [NdArr [2] [3, 5], Csr (2, 3) [0, 1, 2] [0, 2] 0] \<and>
   pcr_noise bn_all [NdArr [2] [3, 5], Csr (2, 3) [0, 1, 2] [0, 2] 0] 1 (NdArray [] [1 / 2]) 1 False =
     (Inr 1, [NdArr [2] [6, 10], Csr (2, 3) [0, 1, 2] [0, 2] 2, NdArr [2] [6, 10]]) \<and>
   nonzero [0, 1, 2] [0, 2] [6, 10] = nonzero [0, 1, 2] [0, 2] [3, 5]"
proof -
  have wfb: "wf_array (NdArray [] [1 / 2 :: real])" by (simp add: wf_array_def)
  have rc: "(1::nat) < length [NdArr [2] [3, 5], Csr (2, 3) [0, 1, 2] [0, 2] 0]" by simp
  have sp: "read_matrix [NdArr [2] [3, 5], Csr (2, 3) [0, 1, 2] [0, 2] 0] 1 =
      Sparse (2, 3) [0, 1, 2] [0, 2] [3, 5]"
    by (simp add: read_matrix_def buf_def)
  from pcr_noise_sparse_pattern [OF bn_all_rng wfb wf_heap_sparse_example2 rc sp pcr_noise_sparse_run]
  have "nonzero [0, 1, 2] [0, 2] [6, 10] = nonzero [0, 1, 2] [0, 2] [3, 5]"
    by (simp add: read_matrix_def buf_def)
  with bn_all_rng wfb wf_heap_sparse_example2 pcr_noise_sparse_run show ?thesis by blast
qed




end
